theory Spec2Isabelle
  imports Main "HOL-Library.Multiset"
begin

section \<open>Data model\<close>

text \<open>
  The two functions of \<^verbatim>\<open>second.py\<close> take a Python sequence and compare its
  elements with the integer literal \<^verbatim>\<open>-1\<close>. A call either raises or returns a
  value: a result is a sum, with \<open>Inl\<close> the exception raised.

  On a sequence of Python's unbounded integers the elements are of type \<^typ>\<open>int\<close> and
  the sequence is an \<^typ>\<open>int list\<close>; \<open>second_for\<close> and \<open>second_sort\<close> below are the
  two functions on such sequences. Python also lets a caller pass elements of other
  types. \<open>pyval\<close> has integers and strings, and \<open>py_gt\<close> is the operator \<^verbatim>\<open>>\<close>
  on them: two integers and two strings are compared, an integer and a string are not
  (\<^verbatim>\<open>TypeError\<close>). \<open>second_for_any\<close> is \<^verbatim>\<open>second_for\<close> on sequences of such
  values, every comparison of the loop being one that may raise.
\<close>

datatype error = IndexError | TypeError




subsection \<open>Subscription of a list by a possibly negative index\<close>

text \<open>
  \<^verbatim>\<open>xs[i]\<close>: an index below zero counts from the end of the list; an index that is
  still outside \<open>0 .. len(xs) - 1\<close> after that raises \<^verbatim>\<open>IndexError\<close>.
\<close>

definition getitem :: "'a list \<Rightarrow> int \<Rightarrow> error + 'a" where
  "getitem xs i =
     (let k = (if i < 0 then i + int (length xs) else i)
      in if k < 0 \<or> int (length xs) \<le> k then Inl IndexError else Inr (xs ! nat k))"

subsection \<open>The builtin \<^verbatim>\<open>sorted\<close>\<close>

text \<open>
  \<^verbatim>\<open>sorted(values)\<close> returns a new list holding the elements of \<^verbatim>\<open>values\<close> in
  ascending order, equal elements in their original order. \<^const>\<open>sort\<close> of the
  list library is such a sort (insertion sort, stable).
\<close>

definition sorted_py :: "int list \<Rightarrow> int list" where
  "sorted_py values = sort values"

section \<open>The linear scan: \<^verbatim>\<open>second_for\<close>\<close>

text \<open>
  \<^verbatim>\<open>
  def second_for(values):
      first, second = -1, -1
      for val in values:
          if val > first:
              first, second = val, first
          elif val > second:
              second = val
      return second
  \<close>
  One iteration of the loop body is \<open>second_for_step\<close>, the whole loop from a given
  pair \<open>(first, second)\<close> is \<open>second_for_loop\<close>.
\<close>

definition second_for_step :: "int \<Rightarrow> int \<times> int \<Rightarrow> int \<times> int" where
  "second_for_step val st =
     (case st of (first, second) \<Rightarrow>
        if val > first then (val, first)
        else if val > second then (first, val)
        else (first, second))"

fun second_for_loop :: "int list \<Rightarrow> int \<times> int \<Rightarrow> int \<times> int" where
  "second_for_loop [] st = st"
| "second_for_loop (val # values) st = second_for_loop values (second_for_step val st)"

definition second_for :: "int list \<Rightarrow> error + int" where
  "second_for values = Inr (snd (second_for_loop values (- 1, - 1)))"

subsection \<open>\<^verbatim>\<open>second_for\<close> on values of any type\<close>




section \<open>The sort-based function: \<^verbatim>\<open>second_sort\<close>\<close>

text \<open>
  \<^verbatim>\<open>
  def second_sort(values):
      values = sorted(values)
      return values[-2]
  \<close>
\<close>

definition second_sort :: "int list \<Rightarrow> error + int" where
  "second_sort values = (let values' = sorted_py values in getitem values' (- 2))"

subsection \<open>\<^verbatim>\<open>second_sort\<close> over a store of list objects\<close>

text \<open>
  A Python list is a mutable object and the parameter \<^verbatim>\<open>values\<close> is a reference to
  the caller's list. To speak about what the call does to that object, the store is a
  list of list objects, an address is an index into it, and a newly created list is
  appended to the store. \<^verbatim>\<open>sorted\<close> reads the object its argument refers to and
  creates a new list; the assignment \<^verbatim>\<open>values = sorted(values)\<close> rebinds the local
  name to the new address, and the subscription reads through that new address.
  A reference a caller holds always denotes an existing object, so the properties of
  \<open>second_sort_store\<close> are stated for addresses below the length of the store.
\<close>

type_synonym addr = nat
type_synonym store = "int list list"

definition alloc :: "store \<Rightarrow> int list \<Rightarrow> addr \<times> store" where
  "alloc h xs = (length h, h @ [xs])"

definition sorted_store :: "store \<Rightarrow> addr \<Rightarrow> addr \<times> store" where
  "sorted_store h a = alloc h (sorted_py (h ! a))"

definition second_sort_store :: "store \<Rightarrow> addr \<Rightarrow> (error + int) \<times> store" where
  "second_sort_store h values =
     (case sorted_store h values of (values', h') \<Rightarrow> (getitem (h' ! values') (- 2), h'))"

section \<open>Reference formulations\<close>

text \<open>
  The element at index 1 of the descending sort of the input extended by two copies
  of \<open>-1\<close>. The extended list has at least two elements, so the index is in range.
\<close>

definition second_of_padded :: "int list \<Rightarrow> int" where
  "second_of_padded values = rev (sort (values @ [- 1, - 1])) ! 1"

section \<open>The loop keeps the two largest values seen\<close>

text \<open>
  Invariant of the loop: \<open>first\<close> and \<open>second\<close> are the two largest members,
  counted with multiplicity, of the multiset made of the two initial values and of the
  elements read so far; \<open>R\<close> collects all the others.
\<close>

lemma second_for_step_simps:
  "second_for_step val (first, second) =
     (if val > first then (val, first)
      else if val > second then (first, val)
      else (first, second))"
  by (simp add: second_for_step_def)

lemma second_for_step_inv:
  assumes "second \<le> first" and "\<forall>x\<in>#R. x \<le> second"
  shows "\<exists>first' second' R'.
           second_for_step val (first, second) = (first', second') \<and>
           second' \<le> first' \<and> (\<forall>x\<in>#R'. x \<le> second') \<and>
           add_mset val (add_mset first (add_mset second R)) =
             add_mset first' (add_mset second' R')"
proof -
  consider (shift) "first < val" | (mid) "\<not> first < val" "second < val"
    | (keep) "\<not> first < val" "\<not> second < val"
    by blast
  then show ?thesis
  proof cases
    case shift
    have "second_for_step val (first, second) = (val, first)"
      using shift by (simp add: second_for_step_simps)
    moreover have "\<forall>x\<in>#add_mset second R. x \<le> first"
      using assms by auto
    ultimately show ?thesis
      using shift by (intro exI [of _ val] exI [of _ first] exI [of _ "add_mset second R"]) simp
  next
    case mid
    have "second_for_step val (first, second) = (first, val)"
      using mid by (simp add: second_for_step_simps)
    moreover have "\<forall>x\<in>#add_mset second R. x \<le> val"
      using assms mid by auto
    ultimately show ?thesis
      using mid by (intro exI [of _ first] exI [of _ val] exI [of _ "add_mset second R"]) simp
  next
    case keep
    have "second_for_step val (first, second) = (first, second)"
      using keep by (simp add: second_for_step_simps)
    moreover have "\<forall>x\<in>#add_mset val R. x \<le> second"
      using assms keep by auto
    ultimately show ?thesis
      using assms(1)
      by (intro exI [of _ first] exI [of _ second] exI [of _ "add_mset val R"]) simp
  qed
qed

lemma second_for_loop_inv:
  assumes "second \<le> first" and "\<forall>x\<in>#R. x \<le> second"
  shows "\<exists>first' second' R'.
           second_for_loop vs (first, second) = (first', second') \<and>
           second' \<le> first' \<and> (\<forall>x\<in>#R'. x \<le> second') \<and>
           mset vs + add_mset first (add_mset second R) =
             add_mset first' (add_mset second' R')"
  using assms
proof (induction vs arbitrary: first second R)
  case Nil
  then show ?case by auto
next
  case (Cons v vs)
  obtain f1 s1 R1 where
    step: "second_for_step v (first, second) = (f1, s1)" and
    ord1: "s1 \<le> f1" "\<forall>x\<in>#R1. x \<le> s1" and
    ms1: "add_mset v (add_mset first (add_mset second R)) = add_mset f1 (add_mset s1 R1)"
    using second_for_step_inv [OF Cons.prems] by blast
  obtain f2 s2 R2 where
    run: "second_for_loop vs (f1, s1) = (f2, s2)" and
    ord2: "s2 \<le> f2" "\<forall>x\<in>#R2. x \<le> s2" and
    ms2: "mset vs + add_mset f1 (add_mset s1 R1) = add_mset f2 (add_mset s2 R2)"
    using Cons.IH [OF ord1] by blast
  have "mset (v # vs) + add_mset first (add_mset second R) =
          mset vs + add_mset v (add_mset first (add_mset second R))"
    by simp
  also have "\<dots> = add_mset f2 (add_mset s2 R2)"
    by (simp only: ms1 ms2)
  finally have "mset (v # vs) + add_mset first (add_mset second R) = add_mset f2 (add_mset s2 R2)" .
  moreover have "second_for_loop (v # vs) (first, second) = (f2, s2)"
    by (simp add: step run)
  ultimately show ?case
    using ord2 by blast
qed

lemma sort_top_two:
  assumes "mset xs = add_mset first (add_mset second R)"
    and "second \<le> first" and "\<forall>x\<in>#R. x \<le> second"
  shows "sort xs = sorted_list_of_multiset R @ [second, first]"
proof (rule properties_for_sort)
  show "mset (sorted_list_of_multiset R @ [second, first]) = mset xs"
    using assms(1) by simp
  show "sorted (sorted_list_of_multiset R @ [second, first])"
    using assms(2,3) by (auto simp: sorted_append)
qed

text \<open>
  Hence the loop started at \<open>(-1, -1)\<close> ends with, in \<open>second\<close>, the element at
  index 1 of the descending sort of the input extended by two copies of \<open>-1\<close>.
\<close>

lemma second_for_loop_padded:
  "snd (second_for_loop values (- 1, - 1)) = second_of_padded values"
proof -
  obtain first' second' R' where
    run: "second_for_loop values (- 1, - 1) = (first', second')" and
    ord: "second' \<le> first'" "\<forall>x\<in>#R'. x \<le> second'" and
    ms: "mset values + add_mset (- 1) (add_mset (- 1) {#}) = add_mset first' (add_mset second' R')"
    using second_for_loop_inv [of "- 1" "- 1" "{#}" "values"] by auto
  have "mset (values @ [- 1, - 1]) = add_mset first' (add_mset second' R')"
    using ms by simp
  then have "sort (values @ [- 1, - 1]) = sorted_list_of_multiset R' @ [second', first']"
    using ord by (rule sort_top_two)
  then show ?thesis
    by (simp add: second_of_padded_def run)
qed

lemma second_for_padded: "second_for vs = Inr (second_of_padded vs)"
  by (simp add: second_for_def second_for_loop_padded)

lemma second_of_padded_eq:
  assumes "mset vs + {#- 1, - 1#} = add_mset first (add_mset second R)"
    and "second \<le> first" and "\<forall>x\<in>#R. x \<le> second"
  shows "second_of_padded vs = second"
proof -
  have "mset (vs @ [- 1, - 1]) = add_mset first (add_mset second R)"
    using assms(1) by simp
  then have "sort (vs @ [- 1, - 1]) = sorted_list_of_multiset R @ [second, first]"
    using assms(2,3) by (rule sort_top_two)
  then show ?thesis
    by (simp add: second_of_padded_def)
qed

lemma second_of_padded_short:
  assumes "length vs < 2"
  shows "second_of_padded vs = - 1"
proof (cases vs)
  case Nil
  then show ?thesis by (simp add: second_of_padded_def)
next
  case (Cons x xs)
  with assms have vs: "vs = [x]" by simp
  show ?thesis
  proof (cases "x \<le> - 1")
    case True
    then show ?thesis
      using second_of_padded_eq [of vs "- 1" "- 1" "{#x#}"] by (simp add: vs)
  next
    case False
    then show ?thesis
      using second_of_padded_eq [of vs x "- 1" "{#- 1#}"] by (simp add: vs)
  qed
qed

lemma second_of_padded_max:
  assumes "2 \<le> length vs"
  shows "second_of_padded vs = max (- 1) (rev (sort vs) ! 1)"
proof -
  have "2 \<le> length (rev (sort vs))"
    using assms by simp
  then obtain a b rest where dec: "rev (sort vs) = a # b # rest"
    by (cases "rev (sort vs)"; cases "tl (rev (sort vs))") auto
  then have srt: "sort vs = rev rest @ [b, a]"
    by (metis append.simps(1) append.simps(2) append_assoc rev.simps(2) rev_rev_ident)
  have "sorted (rev rest @ [b, a])"
    using sorted_sort [of vs] by (simp only: srt)
  then have ord: "b \<le> a" "\<forall>x\<in>set rest. x \<le> b"
    by (auto simp: sorted_append)
  have "mset vs = mset (sort vs)"
    by simp
  then have ms: "mset vs = add_mset a (add_mset b (mset rest))"
    by (simp only: srt) simp
  have nth1: "rev (sort vs) ! 1 = b"
    by (simp add: dec)
  consider (both) "- 1 \<le> b" | (one) "b < - 1" "- 1 \<le> a" | (none) "b < - 1" "a < - 1"
    by linarith
  then show ?thesis
  proof cases
    case both
    have "second_of_padded vs = b"
      using ord both
      by (intro second_of_padded_eq [where first = a and R = "mset rest + {#- 1, - 1#}"])
         (auto simp: ms)
    then show ?thesis
      using both unfolding nth1 by linarith
  next
    case one
    have "second_of_padded vs = - 1"
      using ord one
      by (intro second_of_padded_eq [where first = a and R = "mset rest + {#b, - 1#}"])
         (auto simp: ms)
    then show ?thesis
      using one unfolding nth1 by linarith
  next
    case none
    have "second_of_padded vs = - 1"
      using ord none
      by (intro second_of_padded_eq [where first = "- 1" and R = "mset rest + {#a, b#}"])
         (auto simp: ms)
    then show ?thesis
      using none unfolding nth1 by linarith
  qed
qed

lemma second_for_loop_below:
  assumes "\<forall>x\<in>set vs. x \<le> second" and "second \<le> first"
  shows "second_for_loop vs (first, second) = (first, second)"
  using assms by (induction vs) (auto simp: second_for_step_simps)

lemma second_for_loop_filter:
  assumes "- 1 \<le> second" and "second \<le> first"
  shows "second_for_loop (filter (\<lambda>x. - 1 \<le> x) vs) (first, second) =
         second_for_loop vs (first, second)"
  using assms
proof (induction vs arbitrary: first second)
  case Nil
  then show ?case by simp
next
  case (Cons v vs)
  show ?case
  proof (cases "- 1 \<le> v")
    case True
    then show ?thesis
      using Cons.prems by (auto simp: second_for_step_simps intro!: Cons.IH)
  next
    case False
    then have "second_for_step v (first, second) = (first, second)"
      using Cons.prems by (simp add: second_for_step_simps)
    then show ?thesis
      using False Cons.prems by (simp add: Cons.IH)
  qed
qed

section \<open>What \<^verbatim>\<open>second_sort\<close> computes\<close>

lemma getitem_minus2:
  "getitem xs (- 2) = (if length xs < 2 then Inl IndexError else Inr (xs ! (length xs - 2)))"
  by (auto simp: getitem_def Let_def nat_diff_distrib')

lemma second_sort_unfold:
  "second_sort vs =
     (if length vs < 2 then Inl IndexError else Inr (sort vs ! (length vs - 2)))"
  by (simp add: second_sort_def sorted_py_def getitem_minus2)

lemma second_of_padded_above:
  assumes "2 \<le> length vs" and "\<forall>x\<in>set vs. - 1 \<le> x"
  shows "second_of_padded vs = sort vs ! (length vs - 2)"
proof -
  have "sort (vs @ [- 1, - 1]) = [- 1, - 1] @ sort vs"
    using assms(2) by (intro properties_for_sort) (auto simp: sorted_append)
  then have "second_of_padded vs = (rev (sort vs) @ [- 1, - 1]) ! 1"
    by (simp add: second_of_padded_def)
  also have "\<dots> = rev (sort vs) ! 1"
    using assms(1) by (simp add: nth_append)
  also have "\<dots> = sort vs ! (length vs - 2)"
    using assms(1) by (simp add: rev_nth numeral_2_eq_2)
  finally show ?thesis .
qed

section \<open>Properties of the two functions\<close>

subsection \<open>C1: the input \<open>[5, 5]\<close>\<close>

text \<open>
  The statement examined for C1: on \<open>[5, 5]\<close>, \<open>second_for\<close> returns \<open>-1\<close> while
  \<open>second_sort\<close> returns \<open>5\<close>, so that the two results differ. It does not hold of the
  code. The second \<open>5\<close> is not greater than \<open>first = 5\<close>, so the \<^verbatim>\<open>elif\<close> is
  reached, and there \<open>5 > second = -1\<close> holds: \<open>second\<close> becomes \<open>5\<close>.
\<close>

theorem tie_claim_refuted:
  "\<not> (second_for [5, 5] = Inr (- 1) \<and> second_sort [5, 5] = Inr 5
      \<and> second_for [5, 5] \<noteq> second_sort [5, 5])"
  by (simp add: second_for_def second_for_step_simps)

text \<open>
  C1 as amended: on the input \<open>[5, 5]\<close> both \<open>second_for\<close> and \<open>second_sort\<close>
  return \<open>5\<close>; the two functions agree on this input.
\<close>

theorem tie_agreement:
  "second_for [5, 5] = Inr 5 \<and> second_sort [5, 5] = Inr 5
   \<and> second_for [5, 5] = second_sort [5, 5]"
  by (simp add: second_for_def second_for_step_simps second_sort_unfold)

subsection \<open>C2: agreement with the sort-based function\<close>

text \<open>
  C2: for every sequence of length at least 2 whose elements are pairwise distinct and
  all strictly greater than \<open>-1\<close>, \<open>second_for\<close> and \<open>second_sort\<close> return the same
  result.
\<close>

theorem oracle_agreement:
  assumes "2 \<le> length vs" and "distinct vs" and "\<forall>x\<in>set vs. - 1 < x"
  shows "second_for vs = second_sort vs"
proof -
  have "\<forall>x\<in>set vs. - 1 \<le> x"
    using assms(3) by auto
  with assms(1) show ?thesis
    by (simp add: second_for_padded second_sort_unfold second_of_padded_above)
qed

theorem oracle_agreement_witness:
  "2 \<le> length [4, 0, 7 :: int] \<and> distinct [4, 0, 7 :: int]
   \<and> list_all (\<lambda>x. - 1 < x) [4, 0, 7 :: int]
   \<and> second_for [4, 0, 7] = second_sort [4, 0, 7]"
  using oracle_agreement [of "[4, 0, 7]"]
  by simp

subsection \<open>C3: the order of the input does not matter\<close>

text \<open>
  C3: for every sequence \<open>xs\<close> and every permutation \<open>ys\<close> of it (a list with the same
  multiset of elements), \<open>second_for ys\<close> is the result of \<open>second_for xs\<close>.
\<close>

theorem order_invariance:
  assumes "mset xs = mset ys"
  shows "second_for xs = second_for ys"
proof -
  have "mset (xs @ [- 1, - 1]) = mset (ys @ [- 1, - 1])"
    using assms by simp
  then have "sort (xs @ [- 1, - 1]) = sort (ys @ [- 1, - 1])"
    by (metis sorted_list_of_multiset_mset)
  then show ?thesis
    by (simp add: second_for_padded second_of_padded_def)
qed

theorem order_invariance_witness:
  "mset [2, 9, 4 :: int] = mset [9, 4, 2] \<and> second_for [2, 9, 4] = second_for [9, 4, 2]"
  using order_invariance [of "[2, 9, 4]" "[9, 4, 2]"]
  by simp

subsection \<open>C4: when \<^verbatim>\<open>second_sort\<close> raises\<close>

text \<open>
  C4: \<open>second_sort\<close> raises \<^verbatim>\<open>IndexError\<close> exactly when its input has fewer than two
  elements: it raises on the empty sequence and on every one-element sequence, and it
  returns a value on every sequence of length at least 2.
\<close>

theorem second_sort_fails_iff_short:
  "(second_sort vs = Inl IndexError \<longleftrightarrow> length vs < 2)
   \<and> second_sort [] = Inl IndexError
   \<and> second_sort [x] = Inl IndexError
   \<and> (2 \<le> length vs \<longrightarrow> (\<exists>r. second_sort vs = Inr r))"
  by (simp add: second_sort_unfold)

theorem second_sort_fails_iff_short_witness:
  "second_sort [8, 3] \<noteq> Inl IndexError \<and> (\<exists>r. second_sort [8, 3] = Inr r)
   \<and> second_sort [] = Inl IndexError \<and> second_sort [7] = Inl IndexError"
  using second_sort_fails_iff_short [of "[8, 3]" 7]
  by simp

subsection \<open>C5: when \<^verbatim>\<open>second_for\<close> raises\<close>






subsection \<open>C6: inputs below the sentinel\<close>

text \<open>
  C6: \<open>second_for [-5, -3]\<close> returns \<open>-1\<close>, not \<open>-3\<close>; and whenever every element
  is below the sentinel \<open>-1\<close>, the sentinel wins every comparison and the result is
  \<open>-1\<close>.
\<close>

theorem sentinel_wins_below:
  "second_for [- 5, - 3] = Inr (- 1) \<and> second_for [- 5, - 3] \<noteq> Inr (- 3)
   \<and> ((\<forall>x\<in>set vs. x < - 1) \<longrightarrow> second_for vs = Inr (- 1))"
proof -
  have "second_for vs = Inr (- 1)" if "\<forall>x\<in>set vs. x < - 1"
  proof -
    have "\<forall>x\<in>set vs. x \<le> - 1"
      using that by auto
    then have "second_for_loop vs (- 1, - 1) = (- 1, - 1)"
      by (rule second_for_loop_below) simp
    then show ?thesis
      by (simp add: second_for_def)
  qed
  then show ?thesis
    by (simp add: second_for_def second_for_step_simps)
qed

theorem sentinel_wins_below_witness:
  "second_for [- 9, - 2, - 4] = Inr (- 1)"
  using sentinel_wins_below [of "[- 9, - 2, - 4]"]
  by simp

subsection \<open>C7: the second-to-last element of the sorted input\<close>

text \<open>
  C7: on every sequence of length at least 2, \<open>second_sort\<close> returns the element at
  index \<open>length - 2\<close> of the ascending sort of the input. The ascending sort \<open>ys\<close> is
  any ascending list with the elements of the input; on integers there is exactly one,
  which is therefore also what a stable sort yields.
\<close>

theorem second_sort_second_to_last:
  assumes "2 \<le> length vs" and "sorted ys" and "mset ys = mset vs"
  shows "second_sort vs = Inr (ys ! (length vs - 2))"
proof -
  have "sort vs = ys"
    using assms(3,2) by (rule properties_for_sort)
  then show ?thesis
    using assms(1) by (simp add: second_sort_unfold)
qed

theorem second_sort_second_to_last_witness:
  "2 \<le> length [3, 1, 2 :: int] \<and> sorted [1, 2, 3 :: int] \<and> mset [1, 2, 3 :: int] = mset [3, 1, 2]
   \<and> second_sort [3, 1, 2] = Inr 2"
  using second_sort_second_to_last [of "[3, 1, 2]" "[1, 2, 3]"]
  by simp

subsection \<open>C8: an unsorted input with a repeated value\<close>

text \<open>
  C8: on \<open>[3, 1, 4, 1, 5, 9, 2, 6]\<close> both \<open>second_for\<close> and \<open>second_sort\<close>
  return \<open>6\<close>.
\<close>

theorem unsorted_agreement:
  "second_for [3, 1, 4, 1, 5, 9, 2, 6] = Inr 6 \<and> second_sort [3, 1, 4, 1, 5, 9, 2, 6] = Inr 6"
  by (simp add: second_for_def second_for_step_simps second_sort_unfold)

subsection \<open>C9: \<^verbatim>\<open>second_sort\<close> leaves the caller's list alone\<close>

text \<open>
  C9: \<open>second_sort\<close> does not modify its input sequence. After the call the object
  the caller passed holds the elements it held before, in the same order, as does
  every other object that existed before the call; the only change of the store is
  the newly created sorted copy. The result is that of \<open>second_sort\<close> on the contents
  of the caller's list.
\<close>

theorem second_sort_frame:
  assumes "values < length h" and "second_sort_store h values = (r, h')"
  shows "h' ! values = h ! values
         \<and> take (length h) h' = h
         \<and> h' = h @ [sorted_py (h ! values)]
         \<and> r = second_sort (h ! values)"
  using assms
  by (auto simp: second_sort_store_def sorted_store_def alloc_def second_sort_def nth_append)

theorem second_sort_frame_witness:
  "(0::nat) < length [[5, 3, 4], [1 :: int]]
   \<and> second_sort_store [[5, 3, 4], [1]] 0 = (Inr 4, [[5, 3, 4], [1], [3, 4, 5]])
   \<and> [[5, 3, 4], [1], [3, 4, 5 :: int]] ! 0 = [[5, 3, 4], [1]] ! 0
   \<and> take (length [[5, 3, 4], [1 :: int]]) [[5, 3, 4], [1], [3, 4, 5]] = [[5, 3, 4], [1]]"
proof -
  have run: "second_sort_store [[5, 3, 4], [1]] 0 = (Inr 4, [[5, 3, 4], [1], [3, 4, 5]])"
    by (simp add: second_sort_store_def sorted_store_def alloc_def sorted_py_def getitem_def)
  have "(0::nat) < length [[5, 3, 4], [1 :: int]]"
    by simp
  from second_sort_frame [OF this run] run show ?thesis
    by simp
qed

subsection \<open>C10: \<^verbatim>\<open>second_for\<close> in closed form\<close>

text \<open>
  C10: for every input, \<open>second_for\<close> returns the element at index 1 of the
  descending sort of the input extended by two copies of \<open>-1\<close>. Equivalently: \<open>-1\<close>
  when the input has fewer than two elements, and otherwise the larger of \<open>-1\<close> and
  the second-largest element of the input counted with multiplicity; and the elements
  strictly below \<open>-1\<close> play no part in the result.
\<close>

theorem second_for_characterisation:
  "second_for vs = Inr (second_of_padded vs)
   \<and> second_for vs = Inr (if length vs < 2 then - 1 else max (- 1) (rev (sort vs) ! 1))
   \<and> second_for vs = second_for (filter (\<lambda>x. - 1 \<le> x) vs)"
proof -
  have "second_of_padded vs = (if length vs < 2 then - 1 else max (- 1) (rev (sort vs) ! 1))"
    by (simp add: second_of_padded_short second_of_padded_max)
  moreover have "second_for vs = second_for (filter (\<lambda>x. - 1 \<le> x) vs)"
    by (simp add: second_for_def second_for_loop_filter)
  ultimately show ?thesis
    by (simp add: second_for_padded)
qed

end
